theory Spec2Isabelle
  imports Main
begin

section \<open>Waiting for a machine to change state\<close>

text \<open>
  A shallow embedding of package \<open>machine\<close>: \<open>WaitForStartOrStop\<close>, which polls the
  status service for one state with a backoff between attempts, and
  \<open>WaitForAnyMachineState\<close>, which races one watcher per candidate state.
  Durations are \<open>time.Duration\<close> values, integers counting nanoseconds.
\<close>

subsection \<open>Durations and strings\<close>

definition Millisecond :: int where
  "Millisecond = 1000000"

definition Second :: int where
  "Second = 1000000000"

text \<open>\<open>strings.HasPrefix\<close> and \<open>strings.Contains\<close>, on byte strings.\<close>

fun strings_HasPrefix :: "string \<Rightarrow> string \<Rightarrow> bool" where
  "strings_HasPrefix s [] = True"
| "strings_HasPrefix [] (p # ps) = False"
| "strings_HasPrefix (c # cs) (p # ps) = (c = p \<and> strings_HasPrefix cs ps)"

fun strings_Contains :: "string \<Rightarrow> string \<Rightarrow> bool" where
  "strings_Contains [] substr = (substr = [])"
| "strings_Contains (c # cs) substr =
     (strings_HasPrefix (c # cs) substr \<or> strings_Contains cs substr)"

subsection \<open>The machine, the errors and the backoff\<close>

text \<open>
  Of \<open>fly.Machine\<close> the waiters read the id and the restart policy of the configuration.
  \<open>Config\<close> and \<open>Restart\<close> are pointers, \<open>None\<close> when nil.
\<close>

record MachineRestart =
  Policy :: string

record MachineConfig =
  Restart :: "MachineRestart option"

record Machine =
  ID :: string
  Config :: "MachineConfig option"

definition MachineRestartPolicyNo :: string where
  "MachineRestartPolicyNo = ''no''"

definition StatusBadRequest :: int where
  "StatusBadRequest = 400"

text \<open>
  An error returned by the status query \<open>flapsClient.Wait\<close>. The waiter looks at two
  things only: the text of \<open>err.Error()\<close>, and, when \<open>errors.As\<close> finds a
  \<open>*flaps.FlapsError\<close> in the chain, that error's \<open>ResponseStatusCode\<close>.
\<close>

record query_error =
  err_text :: string
  flaps_status :: "int option"

record GenericErr =
  Err :: string
  Descript :: string
  Suggest :: string
  DocUrl :: string

record WaitTimeoutErr =
  machineID :: string
  timeout :: int
  desiredState :: string

definition invalidAction :: GenericErr where
  "invalidAction =
     \<lparr>Err = ''action must be either start or stop'',
      Descript = '''',
      Suggest = ''This is a bug in wait function, please report this at https://community.fly.io'',
      DocUrl = ''''\<rparr>"

text \<open>
  The errors \<open>WaitForStartOrStop\<close> returns: the query's own error unchanged, the
  generic error, the timeout error, or the result of \<open>fmt.Errorf\<close> (its text and the
  error wrapped by \<open>%w\<close>, if any).
\<close>

datatype go_error =
    Query_error query_error
  | Generic_error GenericErr
  | Timeout_error WaitTimeoutErr
  | Errorf string "query_error option"

text \<open>
  A call either returns an error value (\<open>None\<close> is nil) or panics on a nil pointer.
\<close>

datatype outcome = Returned "go_error option" | Panicked

text \<open>What \<open>waitCtx.Err()\<close> reports when it is not nil.\<close>

datatype ctx_error = Canceled | DeadlineExceeded

text \<open>
  The methods of \<open>WaitTimeoutErr\<close>. \<open>Description\<close> prints the timeout with \<open>%s\<close>,
  that is with \<open>time.Duration.String\<close> of the standard library, taken here as the
  parameter \<open>fmt_duration\<close>.
\<close>

definition WaitTimeoutErr_Error :: "WaitTimeoutErr \<Rightarrow> string" where
  "WaitTimeoutErr_Error e = ''timeout reached waiting for machine's state to change''"

definition Description :: "(int \<Rightarrow> string) \<Rightarrow> WaitTimeoutErr \<Rightarrow> string" where
  "Description fmt_duration e =
     ''The machine '' @ machineID e @ '' took more than '' @ fmt_duration (timeout e)
       @ '' to reach \"'' @ desiredState e @ ''\"''"

definition DesiredState :: "WaitTimeoutErr \<Rightarrow> string" where
  "DesiredState e = desiredState e"

text \<open>
  The retry policy is the third-party \<open>backoff.Backoff\<close>, whose code is not part of the
  repository. The struct has the fields the waiter sets and the attempt counter.
\<close>

record Backoff =
  Min_dur :: int
  Max_dur :: int
  Factor :: int
  Jitter :: bool
  attempt :: nat

text \<open>
  Modelled from the spec: \<open>Backoff.Duration\<close> of the backoff library, which is not under
  src/. The spec gives the policy as exponential from the minimum interval, multiplied
  by the factor at each attempt, capped at the maximum interval, the same instance
  persisting across retries. The random jitter is switched off in the only instance the
  waiter builds and is not modelled.
\<close>

definition Duration :: "Backoff \<Rightarrow> int \<times> Backoff" where
  "Duration b =
     (min (Min_dur b * Factor b ^ attempt b) (Max_dur b), b\<lparr>attempt := attempt b + 1\<rparr>)"

subsection \<open>WaitForStartOrStop\<close>

text \<open>
  The waiter is run against a script of the environment: for each call of
  \<open>flapsClient.Wait\<close>, the error it returns (\<open>None\<close> for nil) and what \<open>waitCtx.Err()\<close>
  reports right after. What the waiter does to the outside is recorded in order: each
  status query with its state and per-attempt timeout, and each sleep with its duration.
\<close>

type_synonym response = "query_error option \<times> ctx_error option"

datatype effect = Wait_call string int | Sleep int

text \<open>
  The first test of the default branch. \<open>strings.Contains\<close> is evaluated first and
  short-circuits; after it \<open>machine.Config.Restart\<close> dereferences \<open>machine.Config\<close>,
  which panics when that pointer is nil (\<open>None\<close> below).
\<close>

definition restart_forbidden :: "Machine \<Rightarrow> query_error \<Rightarrow> bool option" where
  "restart_forbidden machine err =
     (if \<not> strings_Contains (err_text err) ''machine failed to reach desired state''
      then Some False
      else (case Config machine of
              None \<Rightarrow> None
            | Some cfg \<Rightarrow>
                (case Restart cfg of
                   None \<Rightarrow> Some False
                 | Some r \<Rightarrow> Some (Policy r = MachineRestartPolicyNo))))"

definition is_bad_request :: "query_error \<Rightarrow> bool" where
  "is_bad_request err = (flaps_status err = Some StatusBadRequest)"

text \<open>
  The \<open>for\<close> loop. It runs for as long as the script has responses; \<open>None\<close> means the
  loop is still running when the script ends.
\<close>

fun wait_loop ::
  "Machine \<Rightarrow> int \<Rightarrow> string \<Rightarrow> Backoff \<Rightarrow> response list \<Rightarrow> effect list
    \<Rightarrow> (outcome \<times> effect list) option" where
  "wait_loop machine tmo waitOnAction b [] tr = None"
| "wait_loop machine tmo waitOnAction b ((err, ctx_err) # script) tr =
     (let tr1 = tr @ [Wait_call waitOnAction (60 * Second)] in
      case err of
        None \<Rightarrow> Some (Returned None, tr1)
      | Some e \<Rightarrow>
          (case ctx_err of
             Some Canceled \<Rightarrow> Some (Returned (Some (Query_error e)), tr1)
           | Some DeadlineExceeded \<Rightarrow>
               Some (Returned (Some (Timeout_error
                 \<lparr>machineID = ID machine, timeout = tmo, desiredState = waitOnAction\<rparr>)), tr1)
           | None \<Rightarrow>
               (case restart_forbidden machine e of
                  None \<Rightarrow> Some (Panicked, tr1)
                | Some True \<Rightarrow>
                    Some (Returned (Some (Errorf
                      (''machine failed to reach desired start state, and restart policy was set to ''
                         @ Policy (the (Restart (the (Config machine)))) @ '' restart'') None)), tr1)
                | Some False \<Rightarrow>
                    if is_bad_request e
                    then Some (Returned (Some (Errorf
                           (''failed waiting for machine: '' @ err_text e) (Some e))), tr1)
                    else (case Duration b of
                            (d, b') \<Rightarrow>
                              wait_loop machine tmo waitOnAction b' script (tr1 @ [Sleep d])))))"

definition new_backoff :: Backoff where
  "new_backoff =
     \<lparr>Min_dur = 500 * Millisecond, Max_dur = 2 * Second, Factor = 2, Jitter = False,
      attempt = 0\<rparr>"

text \<open>The \<open>switch\<close> on the action: the state to wait for, \<open>None\<close> in the default case.\<close>

definition waitOnAction_of :: "string \<Rightarrow> string option" where
  "waitOnAction_of action =
     (if action = ''start'' then Some ''started''
      else if action = ''stop'' then Some ''stopped''
      else None)"

definition WaitForStartOrStop ::
  "Machine \<Rightarrow> string \<Rightarrow> int \<Rightarrow> response list \<Rightarrow> (outcome \<times> effect list) option" where
  "WaitForStartOrStop machine action tmo script =
     (case waitOnAction_of action of
        None \<Rightarrow> Some (Returned (Some (Generic_error invalidAction)), [])
      | Some waitOnAction \<Rightarrow> wait_loop machine tmo waitOnAction new_backoff script [])"

fun sleeps :: "effect list \<Rightarrow> int list" where
  "sleeps [] = []"
| "sleeps (Wait_call s d # tr) = sleeps tr"
| "sleeps (Sleep d # tr) = d # sleeps tr"

text \<open>
  A response after which the loop sleeps and tries again: the query failed, the context
  is still live, and neither of the two tests of the default branch fires.
\<close>

fun transient :: "Machine \<Rightarrow> response \<Rightarrow> bool" where
  "transient machine (Some e, None) =
     (restart_forbidden machine e = Some False \<and> \<not> is_bad_request e)"
| "transient machine (err, ctx_err) = False"

text \<open>
  The effects of \<open>n\<close> failed attempts in a row from backoff state \<open>b\<close>, and the
  backoff state after them.
\<close>

fun retry_trace :: "string \<Rightarrow> Backoff \<Rightarrow> nat \<Rightarrow> effect list" where
  "retry_trace waitOnAction b 0 = []"
| "retry_trace waitOnAction b (Suc n) =
     Wait_call waitOnAction (60 * Second) # Sleep (fst (Duration b))
       # retry_trace waitOnAction (snd (Duration b)) n"

fun backoff_after :: "Backoff \<Rightarrow> nat \<Rightarrow> Backoff" where
  "backoff_after b 0 = b"
| "backoff_after b (Suc n) = backoff_after (snd (Duration b)) n"

subsection \<open>WaitForAnyMachineState\<close>

text \<open>
  Modelled from the spec: the status line of package \<open>statuslogger\<close>, which is not under
  src/. The spec describes it as an optional progress sink for UI feedback only; it is
  modelled by the lines it has been sent, and a nil reporter is \<open>None\<close>.
\<close>

datatype Status = StatusRunning

type_synonym StatusLine = "(Status \<times> string) list"

definition LogStatus :: "StatusLine \<Rightarrow> Status \<Rightarrow> string \<Rightarrow> StatusLine" where
  "LogStatus line status msg = line @ [(status, msg)]"

text \<open>
  The variables the goroutines and the coordinator share under the mutex, and the status
  line the goroutines write to.
\<close>

record race =
  waitErr :: "query_error option"
  numCompleted :: nat
  successfulState :: string
  status_line :: "StatusLine option"

text \<open>
  The critical section of the goroutine watching \<open>state\<close>, entered once its query has
  returned \<open>err\<close>. The deferred function counts the completion on every path.
\<close>

definition watcher :: "Machine \<Rightarrow> string \<Rightarrow> query_error option \<Rightarrow> race \<Rightarrow> race" where
  "watcher mach state err r =
     (let r' =
        (if successfulState r \<noteq> '''' then r
         else
           let r1 = r\<lparr>status_line :=
                      map_option (\<lambda>line. LogStatus line StatusRunning
                          (''Machine '' @ ID mach @ '' reached '' @ state @ '' state''))
                        (status_line r)\<rparr>
           in (case err of
                 Some e \<Rightarrow> r1\<lparr>waitErr := Some e\<rparr>
               | None \<Rightarrow> r1\<lparr>successfulState := state\<rparr>))
      in r'\<lparr>numCompleted := numCompleted r' + 1\<rparr>)"

text \<open>
  One pass of the coordinator's loop under the mutex, for \<open>n\<close> candidate states: the
  pair it returns, or \<open>None\<close> when it unlocks and sleeps.
\<close>

definition coordinator :: "nat \<Rightarrow> race \<Rightarrow> (string \<times> query_error option) option" where
  "coordinator n r =
     (if successfulState r \<noteq> '''' \<or> numCompleted r = n
      then Some (successfulState r, waitErr r)
      else None)"

text \<open>
  The mutex serialises the critical sections, so an execution is a sequence of events:
  \<open>Finish i\<close>, the goroutine of the \<open>i\<close>-th candidate state runs its critical section,
  and \<open>Poll\<close>, the coordinator runs one pass of its loop. The query of the \<open>i\<close>-th
  goroutine returns \<open>results ! i\<close>; a goroutine beyond \<open>results\<close> never returns from its
  query, and there is no goroutine beyond \<open>possibleStates\<close>. The run ends at the first pass of the coordinator that returns; \<open>None\<close> means
  the coordinator is still polling when the events end.
\<close>

datatype event = Finish nat | Poll

definition goroutine ::
  "Machine \<Rightarrow> string list \<Rightarrow> query_error option list \<Rightarrow> nat \<Rightarrow> race \<Rightarrow> race" where
  "goroutine mach possibleStates results i r =
     (if i < length possibleStates \<and> i < length results
      then watcher mach (possibleStates ! i) (results ! i) r
      else r)"

fun race_run ::
  "Machine \<Rightarrow> string list \<Rightarrow> query_error option list \<Rightarrow> event list \<Rightarrow> race
    \<Rightarrow> ((string \<times> query_error option) \<times> StatusLine option) option" where
  "race_run mach possibleStates results [] r = None"
| "race_run mach possibleStates results (Poll # es) r =
     (case coordinator (length possibleStates) r of
        Some res \<Rightarrow> Some (res, status_line r)
      | None \<Rightarrow> race_run mach possibleStates results es r)"
| "race_run mach possibleStates results (Finish i # es) r =
     race_run mach possibleStates results es (goroutine mach possibleStates results i r)"

definition race_init :: "StatusLine option \<Rightarrow> race" where
  "race_init sl =
     \<lparr>waitErr = None, numCompleted = 0, successfulState = '''', status_line = sl\<rparr>"

text \<open>
  The function returns the pair of the Go function; the status line after the run comes
  with it.
\<close>

definition WaitForAnyMachineState ::
  "Machine \<Rightarrow> string list \<Rightarrow> int \<Rightarrow> StatusLine option \<Rightarrow> query_error option list
    \<Rightarrow> event list \<Rightarrow> ((string \<times> query_error option) \<times> StatusLine option) option" where
  "WaitForAnyMachineState mach possibleStates tmo sl results sched =
     race_run mach possibleStates results sched (race_init sl)"

text \<open>The shared variables after a sequence of events, whatever the coordinator saw.\<close>

fun race_state ::
  "Machine \<Rightarrow> string list \<Rightarrow> query_error option list \<Rightarrow> event list \<Rightarrow> race \<Rightarrow> race" where
  "race_state mach possibleStates results [] r = r"
| "race_state mach possibleStates results (Poll # es) r =
     race_state mach possibleStates results es r"
| "race_state mach possibleStates results (Finish i # es) r =
     race_state mach possibleStates results es (goroutine mach possibleStates results i r)"

text \<open>The goroutines that finish during a sequence of events, in order.\<close>

fun finished :: "event list \<Rightarrow> nat list" where
  "finished [] = []"
| "finished (Finish i # es) = i # finished es"
| "finished (Poll # es) = finished es"

text \<open>The candidate states whose query succeeds.\<close>

definition succeeding :: "string list \<Rightarrow> query_error option list \<Rightarrow> string list" where
  "succeeding possibleStates results =
     map fst (filter (\<lambda>(state, err). err = None) (zip possibleStates results))"

section \<open>Properties of WaitForStartOrStop\<close>

text \<open>
  C4. For every action other than \<open>start\<close> and \<open>stop\<close>, whatever the machine, the
  timeout and the environment, \<open>WaitForStartOrStop\<close> returns the \<open>invalidAction\<close> error
  and has issued no status query (and no sleep) when it returns.
\<close>

theorem invalid_action_no_query:
  assumes "action \<noteq> ''start''" and "action \<noteq> ''stop''"
  shows "WaitForStartOrStop machine action tmo script
           = Some (Returned (Some (Generic_error invalidAction)), [])"
  using assms by (simp add: WaitForStartOrStop_def waitOnAction_of_def)

theorem invalid_action_no_query_witness:
  "''restart'' \<noteq> ''start'' \<and> ''restart'' \<noteq> ''stop''
   \<and> WaitForStartOrStop \<lparr>ID = ''m1'', Config = None\<rparr> ''restart'' (5 * Second)
        [(Some \<lparr>err_text = ''boom'', flaps_status = None\<rparr>, None)]
       = Some (Returned (Some (Generic_error invalidAction)), [])"
  using invalid_action_no_query [of "''restart''" "\<lparr>ID = ''m1'', Config = None\<rparr>" "5 * Second"
      "[(Some \<lparr>err_text = ''boom'', flaps_status = None\<rparr>, None)]"]
  by simp

subsection \<open>Retries and the backoff\<close>

lemma wait_loop_transient:
  "list_all (transient machine) pre \<Longrightarrow>
   wait_loop machine tmo w b (pre @ rest) tr
     = wait_loop machine tmo w (backoff_after b (length pre)) rest
         (tr @ retry_trace w b (length pre))"
proof (induction pre arbitrary: b tr)
  case Nil
  then show ?case by simp
next
  case (Cons r pre)
  obtain err c where r: "r = (err, c)" by (cases r)
  from Cons.prems have t: "transient machine (err, c)" and rest: "list_all (transient machine) pre"
    by (simp_all add: r)
  from t obtain e where e: "err = Some e" "c = None"
    "restart_forbidden machine e = Some False" "\<not> is_bad_request e"
    by (cases err; cases c) auto
  show ?case
    using Cons.IH [OF rest] by (simp add: r e split: prod.splits)
qed

lemma Duration_fst:
  "fst (Duration b) = min (Min_dur b * Factor b ^ attempt b) (Max_dur b)"
  by (simp add: Duration_def)

lemma Duration_snd: "snd (Duration b) = b\<lparr>attempt := Suc (attempt b)\<rparr>"
  by (simp add: Duration_def)

lemma sleeps_retry_trace:
  "sleeps (retry_trace w b n)
     = map (\<lambda>k. min (Min_dur b * Factor b ^ (attempt b + k)) (Max_dur b)) [0..<n]"
proof (induction n arbitrary: b)
  case 0
  then show ?case by simp
next
  case (Suc n)
  have "[0..<Suc n] = 0 # map Suc [0..<n]"
    by (simp add: upt_conv_Cons map_Suc_upt del: upt_Suc)
  then show ?case
    by (simp add: Suc.IH Duration_fst Duration_snd comp_def del: upt_Suc)
qed

lemma sleeps_append: "sleeps (xs @ ys) = sleeps xs @ sleeps ys"
  by (induction xs rule: sleeps.induct) simp_all

lemma backoff_mono:
  "i \<le> j \<Longrightarrow> min (500 * Millisecond * 2 ^ i) (2 * Second)
     \<le> min (500 * Millisecond * 2 ^ j) (2 * Second)"
proof -
  assume "i \<le> j"
  then have "(2::int) ^ i \<le> 2 ^ j" by (simp add: power_increasing)
  then have "500 * Millisecond * 2 ^ i \<le> 500 * Millisecond * 2 ^ j"
    by (simp add: Millisecond_def)
  then show ?thesis by (simp add: min_le_iff_disj)
qed

lemma backoff_sorted:
  "sorted (map (\<lambda>k. min (500 * Millisecond * 2 ^ k) (2 * Second)) [0..<n])"
  unfolding sorted_iff_nth_mono
proof (intro allI impI)
  fix i j
  assume ij: "i \<le> j"
    and "j < length (map (\<lambda>k. min (500 * Millisecond * 2 ^ k) (2 * Second)) [0..<n])"
  then have "j < n" and "i < n" by simp_all
  then show "map (\<lambda>k. min (500 * Millisecond * 2 ^ k) (2 * Second)) [0..<n] ! i
      \<le> map (\<lambda>k. min (500 * Millisecond * 2 ^ k) (2 * Second)) [0..<n] ! j"
    using backoff_mono [OF ij] by (simp only: nth_map_upt minus_nat.diff_0 add_0)
qed

lemma backoff_bounds:
  "500 * Millisecond \<le> min (500 * Millisecond * 2 ^ k) (2 * Second)
   \<and> min (500 * Millisecond * 2 ^ k) (2 * Second) \<le> 2 * Second"
proof -
  have "(1::int) \<le> 2 ^ k" by simp
  then have "500 * Millisecond * 1 \<le> 500 * Millisecond * 2 ^ k"
    by (simp add: Millisecond_def)
  then show ?thesis by (simp add: Millisecond_def Second_def)
qed

lemma new_backoff_sleeps:
  "sleeps (retry_trace w new_backoff n)
     = map (\<lambda>k. min (500 * Millisecond * 2 ^ k) (2 * Second)) [0..<n]"
  by (simp add: sleeps_retry_trace new_backoff_def)

text \<open>
  C5. When the query fails transiently \<open>K\<close> times (the responses \<open>pre\<close>) and then succeeds,
  the waiter returns nil after \<open>K\<close> sleeps, and the sleep before the \<open>(k+1)\<close>-th retry is
  \<open>min (500ms * 2 ^ k) 2s\<close>: the delays are 500ms, 1s, 2s, 2s, ..., non-decreasing, never
  below 500ms and never above 2s. The formula of one delay is that of the backoff policy as
  the spec gives it; what is proved of the code is that the waiter builds the policy with
  minimum 500ms, maximum 2s, factor 2 and no jitter, and asks the same instance once per
  failed attempt.
\<close>

theorem backoff_delays:
  assumes "waitOnAction_of action = Some w" and "list_all (transient machine) pre"
  shows "\<exists>tr. WaitForStartOrStop machine action tmo (pre @ (None, c) # rest)
                 = Some (Returned None, tr)
           \<and> sleeps tr = map (\<lambda>k. min (500 * Millisecond * 2 ^ k) (2 * Second)) [0..<length pre]
           \<and> sorted (sleeps tr)
           \<and> list_all (\<lambda>d. 500 * Millisecond \<le> d \<and> d \<le> 2 * Second) (sleeps tr)"
proof -
  let ?tr = "retry_trace w new_backoff (length pre) @ [Wait_call w (60 * Second)]"
  have run: "WaitForStartOrStop machine action tmo (pre @ (None, c) # rest)
               = Some (Returned None, ?tr)"
    using assms by (simp add: WaitForStartOrStop_def wait_loop_transient)
  have sl: "sleeps ?tr = map (\<lambda>k. min (500 * Millisecond * 2 ^ k) (2 * Second)) [0..<length pre]"
    by (simp add: sleeps_append new_backoff_sleeps)
  have bd: "list_all (\<lambda>d. 500 * Millisecond \<le> d \<and> d \<le> 2 * Second) (sleeps ?tr)"
    unfolding sl list_all_iff using backoff_bounds by (simp del: upt_Suc)
  have so: "sorted (sleeps ?tr)"
    unfolding sl by (rule backoff_sorted)
  show ?thesis
    by (rule exI [of _ ?tr]) (intro conjI run sl so bd)
qed

theorem backoff_delays_witness:
  "waitOnAction_of ''start'' = Some ''started''
   \<and> list_all (transient \<lparr>ID = ''m1'', Config = None\<rparr>)
         [(Some \<lparr>err_text = ''boom'', flaps_status = None\<rparr>, None),
          (Some \<lparr>err_text = ''busy'', flaps_status = Some 503\<rparr>, None),
          (Some \<lparr>err_text = ''boom'', flaps_status = None\<rparr>, None),
          (Some \<lparr>err_text = ''boom'', flaps_status = None\<rparr>, None)]
   \<and> (\<exists>tr. WaitForStartOrStop \<lparr>ID = ''m1'', Config = None\<rparr> ''start'' (5 * Second)
           ([(Some \<lparr>err_text = ''boom'', flaps_status = None\<rparr>, None),
             (Some \<lparr>err_text = ''busy'', flaps_status = Some 503\<rparr>, None),
             (Some \<lparr>err_text = ''boom'', flaps_status = None\<rparr>, None),
             (Some \<lparr>err_text = ''boom'', flaps_status = None\<rparr>, None)] @ (None, None) # [])
           = Some (Returned None, tr)
         \<and> sleeps tr = [500000000, 1000000000, 2000000000, 2000000000])"
  (is "?A \<and> list_all (transient ?m) ?pre \<and> ?C")
proof -
  have a: ?A
    by (simp add: waitOnAction_of_def)
  have b: "list_all (transient ?m) ?pre"
    by (simp add: restart_forbidden_def is_bad_request_def StatusBadRequest_def)
  have len: "length ?pre = 4" by simp
  have c: "map (\<lambda>k. min (500 * Millisecond * 2 ^ k) (2 * Second)) [0..<4]
             = [500000000, 1000000000, 2000000000, 2000000000]"
    by (simp add: upt_rec Millisecond_def Second_def)
  from backoff_delays [OF a b, of "5 * Second" None "[]"]
  obtain tr where
    "WaitForStartOrStop ?m ''start'' (5 * Second) (?pre @ (None, None) # [])
       = Some (Returned None, tr)"
    and "sleeps tr = map (\<lambda>k. min (500 * Millisecond * 2 ^ k) (2 * Second)) [0..<length ?pre]"
    by blast
  then have ?C unfolding len c by blast
  with a b show ?thesis by blast
qed

subsection \<open>Errors that end the wait\<close>

text \<open>
  C6. When the first query fails with a text containing \<open>machine failed to reach desired
  state\<close>, the machine's restart policy is \<open>no\<close> and the deadline of the context has not
  fired, the waiter returns an error at once: the only effect is that one query, and there
  is no sleep. With a live context the error is the restart-policy failure; with a
  canceled context it is the query's error, by the precedence of C10.
\<close>

theorem restart_forbidden_returns_at_once:
  assumes "waitOnAction_of action = Some w"
    and "strings_Contains (err_text e) ''machine failed to reach desired state''"
    and "Config machine = Some cfg" and "Restart cfg = Some rst"
    and "Policy rst = MachineRestartPolicyNo"
    and "c \<noteq> Some DeadlineExceeded"
  shows "WaitForStartOrStop machine action tmo ((Some e, c) # rest)
           = Some (Returned (Some
                (case c of
                   None \<Rightarrow> Errorf
                     ''machine failed to reach desired start state, and restart policy was set to no restart''
                     None
                 | Some ce \<Rightarrow> Query_error e)),
              [Wait_call w (60 * Second)])"
proof (cases c)
  case None
  have "restart_forbidden machine e = Some True"
    using assms by (simp add: restart_forbidden_def)
  then show ?thesis
    using assms None by (simp add: WaitForStartOrStop_def MachineRestartPolicyNo_def)
next
  case (Some ce)
  then have "ce = Canceled" using assms(6) by (cases ce) auto
  then show ?thesis
    using assms(1) Some by (simp add: WaitForStartOrStop_def)
qed

theorem restart_forbidden_returns_at_once_witness:
  "waitOnAction_of ''start'' = Some ''started''
   \<and> strings_Contains
        (err_text \<lparr>err_text = ''machine failed to reach desired state'', flaps_status = None\<rparr>)
        ''machine failed to reach desired state''
   \<and> Config \<lparr>ID = ''m1'', Config = Some \<lparr>Restart = Some \<lparr>Policy = ''no''\<rparr>\<rparr>\<rparr>
       = Some \<lparr>Restart = Some \<lparr>Policy = ''no''\<rparr>\<rparr>
   \<and> Restart \<lparr>Restart = Some \<lparr>Policy = ''no''\<rparr>\<rparr> = Some \<lparr>Policy = ''no''\<rparr>
   \<and> Policy \<lparr>Policy = ''no''\<rparr> = MachineRestartPolicyNo
   \<and> (None :: ctx_error option) \<noteq> Some DeadlineExceeded
   \<and> WaitForStartOrStop \<lparr>ID = ''m1'', Config = Some \<lparr>Restart = Some \<lparr>Policy = ''no''\<rparr>\<rparr>\<rparr>
        ''start'' (5 * Second)
        ((Some \<lparr>err_text = ''machine failed to reach desired state'', flaps_status = None\<rparr>,
          None) # [])
       = Some (Returned (Some (Errorf
            ''machine failed to reach desired start state, and restart policy was set to no restart''
            None)),
          [Wait_call ''started'' (60 * Second)])"
  (is "?h1 \<and> ?h2 \<and> ?h3 \<and> ?h4 \<and> ?h5 \<and> ?h6 \<and> ?c")
proof -
  have h1: ?h1 by (simp add: waitOnAction_of_def)
  have h2: ?h2 by simp
  have h3: ?h3 by simp
  have h4: ?h4 by simp
  have h5: ?h5 by (simp add: MachineRestartPolicyNo_def)
  have h6: ?h6 by simp
  from restart_forbidden_returns_at_once [OF h1 h2 h3 h4 h5 h6, of "5 * Second" "[]"]
  have ?c by simp
  with h1 h2 h3 h4 h5 h6 show ?thesis by blast
qed

lemma strings_HasPrefix_iff: "strings_HasPrefix s p \<longleftrightarrow> (\<exists>q. s = p @ q)"
  by (induction s p rule: strings_HasPrefix.induct) auto

lemma strings_Contains_iff: "strings_Contains s sub \<longleftrightarrow> (\<exists>p q. s = p @ sub @ q)"
proof (induction s)
  case Nil
  then show ?case by auto
next
  case (Cons c cs)
  show ?case
  proof
    assume "strings_Contains (c # cs) sub"
    then consider "strings_HasPrefix (c # cs) sub" | "strings_Contains cs sub" by auto
    then show "\<exists>p q. c # cs = p @ sub @ q"
    proof cases
      case 1
      then obtain q where "c # cs = sub @ q" by (auto simp: strings_HasPrefix_iff)
      then have "c # cs = [] @ sub @ q" by simp
      then show ?thesis by blast
    next
      case 2
      then obtain p q where "cs = p @ sub @ q" using Cons.IH by auto
      then have "c # cs = (c # p) @ sub @ q" by simp
      then show ?thesis by blast
    qed
  next
    assume "\<exists>p q. c # cs = p @ sub @ q"
    then obtain p q where pq: "c # cs = p @ sub @ q" by auto
    show "strings_Contains (c # cs) sub"
    proof (cases p)
      case Nil
      then have "strings_HasPrefix (c # cs) sub" using pq by (auto simp: strings_HasPrefix_iff)
      then show ?thesis by simp
    next
      case (Cons a p')
      then have "cs = p' @ sub @ q" using pq by simp
      then have "strings_Contains cs sub" using Cons.IH by blast
      then show ?thesis by simp
    qed
  qed
qed

lemma strings_Contains_mid: "strings_Contains (p @ sub @ q) sub"
  by (auto simp: strings_Contains_iff)

lemma Description_contains:
  "strings_Contains (Description fmt e) (machineID e)
   \<and> strings_Contains (Description fmt e) (fmt (timeout e))
   \<and> strings_Contains (Description fmt e) (desiredState e)"
proof -
  have 1: "strings_Contains (''The machine '' @ machineID e
      @ ('' took more than '' @ fmt (timeout e) @ '' to reach \"'' @ desiredState e @ ''\"''))
      (machineID e)"
    by (rule strings_Contains_mid)
  have 2: "strings_Contains ((''The machine '' @ machineID e @ '' took more than '')
      @ fmt (timeout e) @ ('' to reach \"'' @ desiredState e @ ''\"'')) (fmt (timeout e))"
    by (rule strings_Contains_mid)
  have 3: "strings_Contains ((''The machine '' @ machineID e @ '' took more than ''
      @ fmt (timeout e) @ '' to reach \"'') @ desiredState e @ ''\"'') (desiredState e)"
    by (rule strings_Contains_mid)
  show ?thesis using 1 2 3 by (simp add: Description_def)
qed

lemma wait_loop_deadline:
  "wait_loop machine tmo w b ((Some e, Some DeadlineExceeded) # rest) tr
     = Some (Returned (Some (Timeout_error
         \<lparr>machineID = ID machine, timeout = tmo, desiredState = w\<rparr>)),
         tr @ [Wait_call w (60 * Second)])"
  by simp

lemma wait_loop_canceled:
  "wait_loop machine tmo w b ((Some e, Some Canceled) # rest) tr
     = Some (Returned (Some (Query_error e)), tr @ [Wait_call w (60 * Second)])"
  by simp

text \<open>
  C7. When a query fails and the context reports that its deadline is exceeded, after any
  number of transient failures, the waiter returns the \<open>WaitTimeoutErr\<close> holding the
  machine's id, the configured timeout and the desired state, and \<open>Description\<close>, the
  readable rendering of that error, contains the id, the rendered timeout and the desired
  state. (\<open>Error\<close> is a fixed text.)
\<close>

theorem deadline_gives_timeout_error:
  assumes "waitOnAction_of action = Some w" and "list_all (transient machine) pre"
  shows "WaitForStartOrStop machine action tmo (pre @ (Some e, Some DeadlineExceeded) # rest)
           = Some (Returned (Some (Timeout_error
                \<lparr>machineID = ID machine, timeout = tmo, desiredState = w\<rparr>)),
              retry_trace w new_backoff (length pre) @ [Wait_call w (60 * Second)])
         \<and> strings_Contains
             (Description fmt \<lparr>machineID = ID machine, timeout = tmo, desiredState = w\<rparr>)
             (ID machine)
         \<and> strings_Contains
             (Description fmt \<lparr>machineID = ID machine, timeout = tmo, desiredState = w\<rparr>)
             (fmt tmo)
         \<and> strings_Contains
             (Description fmt \<lparr>machineID = ID machine, timeout = tmo, desiredState = w\<rparr>)
             w"
proof -
  have "WaitForStartOrStop machine action tmo (pre @ (Some e, Some DeadlineExceeded) # rest)
           = Some (Returned (Some (Timeout_error
                \<lparr>machineID = ID machine, timeout = tmo, desiredState = w\<rparr>)),
              retry_trace w new_backoff (length pre) @ [Wait_call w (60 * Second)])"
    using assms by (simp add: WaitForStartOrStop_def wait_loop_transient del: wait_loop.simps
        add: wait_loop_deadline)
  then show ?thesis
    using Description_contains [of fmt "\<lparr>machineID = ID machine, timeout = tmo, desiredState = w\<rparr>"]
    by simp
qed

theorem deadline_gives_timeout_error_witness:
  "waitOnAction_of ''stop'' = Some ''stopped''
   \<and> list_all (transient \<lparr>ID = ''m1'', Config = None\<rparr>)
         [(Some \<lparr>err_text = ''boom'', flaps_status = None\<rparr>, None)]
   \<and> WaitForStartOrStop \<lparr>ID = ''m1'', Config = None\<rparr> ''stop'' (5 * Second)
        ([(Some \<lparr>err_text = ''boom'', flaps_status = None\<rparr>, None)]
           @ (Some \<lparr>err_text = ''context deadline exceeded'', flaps_status = None\<rparr>,
              Some DeadlineExceeded) # [])
       = Some (Returned (Some (Timeout_error
            \<lparr>machineID = ''m1'', timeout = 5 * Second, desiredState = ''stopped''\<rparr>)),
          [Wait_call ''stopped'' (60 * Second), Sleep (500 * Millisecond),
           Wait_call ''stopped'' (60 * Second)])
   \<and> strings_Contains
        (Description (\<lambda>d. ''5s'')
          \<lparr>machineID = ''m1'', timeout = 5 * Second, desiredState = ''stopped''\<rparr>) ''m1''
   \<and> strings_Contains
        (Description (\<lambda>d. ''5s'')
          \<lparr>machineID = ''m1'', timeout = 5 * Second, desiredState = ''stopped''\<rparr>) ''5s''
   \<and> strings_Contains
        (Description (\<lambda>d. ''5s'')
          \<lparr>machineID = ''m1'', timeout = 5 * Second, desiredState = ''stopped''\<rparr>) ''stopped''"
  (is "?h1 \<and> ?h2 \<and> ?c")
proof -
  have h1: ?h1 by (simp add: waitOnAction_of_def)
  have h2: ?h2 by (simp add: restart_forbidden_def is_bad_request_def)
  have tr: "retry_trace ''stopped'' new_backoff (length [(Some \<lparr>err_text = ''boom'', flaps_status = None\<rparr>, None :: ctx_error option)])
      = [Wait_call ''stopped'' (60 * Second), Sleep (500 * Millisecond)]"
    by (simp add: Duration_def new_backoff_def Millisecond_def Second_def)
  from deadline_gives_timeout_error [OF h1 h2, of "5 * Second"
      "\<lparr>err_text = ''context deadline exceeded'', flaps_status = None\<rparr>" "[]" "\<lambda>d. ''5s''"]
  have ?c unfolding tr by simp
  with h1 h2 show ?thesis by blast
qed

text \<open>
  C10. The state of the context is looked at before the query's error: for every error
  \<open>e\<close> and every machine, a canceled context makes the waiter return \<open>e\<close> unchanged and
  an exceeded deadline makes it return the timeout error, also when \<open>e\<close> would meet the
  restart-policy test (or make it panic) or is a bad request.
\<close>

theorem context_error_first:
  assumes "waitOnAction_of action = Some w" and "list_all (transient machine) pre"
  shows "WaitForStartOrStop machine action tmo (pre @ (Some e, Some Canceled) # rest)
           = Some (Returned (Some (Query_error e)),
              retry_trace w new_backoff (length pre) @ [Wait_call w (60 * Second)])
         \<and> WaitForStartOrStop machine action tmo (pre @ (Some e, Some DeadlineExceeded) # rest)
           = Some (Returned (Some (Timeout_error
                \<lparr>machineID = ID machine, timeout = tmo, desiredState = w\<rparr>)),
              retry_trace w new_backoff (length pre) @ [Wait_call w (60 * Second)])"
  using assms by (simp add: WaitForStartOrStop_def wait_loop_transient del: wait_loop.simps
      add: wait_loop_deadline wait_loop_canceled)

theorem context_error_first_witness:
  "waitOnAction_of ''start'' = Some ''started''
   \<and> list_all (transient \<lparr>ID = ''m1'',
          Config = Some \<lparr>Restart = Some \<lparr>Policy = ''no''\<rparr>\<rparr>\<rparr>) []
   \<and> restart_forbidden \<lparr>ID = ''m1'', Config = Some \<lparr>Restart = Some \<lparr>Policy = ''no''\<rparr>\<rparr>\<rparr>
        \<lparr>err_text = ''machine failed to reach desired state'', flaps_status = Some 400\<rparr>
       = Some True
   \<and> is_bad_request
        \<lparr>err_text = ''machine failed to reach desired state'', flaps_status = Some 400\<rparr>
   \<and> WaitForStartOrStop \<lparr>ID = ''m1'', Config = Some \<lparr>Restart = Some \<lparr>Policy = ''no''\<rparr>\<rparr>\<rparr>
        ''start'' (5 * Second)
        ([] @ (Some \<lparr>err_text = ''machine failed to reach desired state'',
                      flaps_status = Some 400\<rparr>, Some Canceled) # [])
       = Some (Returned (Some (Query_error
            \<lparr>err_text = ''machine failed to reach desired state'', flaps_status = Some 400\<rparr>)),
          [Wait_call ''started'' (60 * Second)])
   \<and> WaitForStartOrStop \<lparr>ID = ''m1'', Config = Some \<lparr>Restart = Some \<lparr>Policy = ''no''\<rparr>\<rparr>\<rparr>
        ''start'' (5 * Second)
        ([] @ (Some \<lparr>err_text = ''machine failed to reach desired state'',
                      flaps_status = Some 400\<rparr>, Some DeadlineExceeded) # [])
       = Some (Returned (Some (Timeout_error
            \<lparr>machineID = ''m1'', timeout = 5 * Second, desiredState = ''started''\<rparr>)),
          [Wait_call ''started'' (60 * Second)])"
  (is "?h1 \<and> ?h2 \<and> ?m1 \<and> ?m2 \<and> ?c")
proof -
  have h1: ?h1 by (simp add: waitOnAction_of_def)
  have h2: ?h2 by simp
  have m1: ?m1 by (simp add: restart_forbidden_def MachineRestartPolicyNo_def)
  have m2: ?m2 by (simp add: is_bad_request_def StatusBadRequest_def)
  from context_error_first [OF h1 h2, of "5 * Second"
      "\<lparr>err_text = ''machine failed to reach desired state'', flaps_status = Some 400\<rparr>" "[]"]
  have ?c by simp
  with h1 h2 m1 m2 show ?thesis by blast
qed

section \<open>Properties of WaitForAnyMachineState\<close>

lemma watcher_numCompleted: "numCompleted (watcher m s e r) = Suc (numCompleted r)"
  by (simp add: watcher_def Let_def split: option.splits)

lemma watcher_keeps_winner:
  "successfulState r \<noteq> [] \<Longrightarrow> successfulState (watcher m s e r) = successfulState r"
  by (simp add: watcher_def)

lemma watcher_sets_winner:
  "successfulState r = [] \<Longrightarrow> successfulState (watcher m s None r) = s"
  by (simp add: watcher_def)

lemma watcher_failure:
  "successfulState r = [] \<Longrightarrow>
   successfulState (watcher m s (Some e) r) = [] \<and> waitErr (watcher m s (Some e) r) = Some e"
  by (simp add: watcher_def)

lemma goroutine_keeps_winner:
  "successfulState r \<noteq> [] \<Longrightarrow> successfulState (goroutine m S R i r) = successfulState r"
  by (simp add: goroutine_def watcher_keeps_winner)

lemma race_state_append:
  "race_state m S R (es1 @ es2) r = race_state m S R es2 (race_state m S R es1 r)"
  by (induction es1 arbitrary: r rule: finished.induct) simp_all

lemma race_state_no_finish: "finished es = [] \<Longrightarrow> race_state m S R es r = r"
  by (induction es rule: finished.induct) simp_all

lemma race_state_keeps_winner:
  "successfulState r \<noteq> [] \<Longrightarrow> successfulState (race_state m S R es r) = successfulState r"
  by (induction es arbitrary: r rule: finished.induct) (simp_all add: goroutine_keeps_winner)

lemma in_succeeding:
  assumes "i < length S" and "i < length R" and "R ! i = None"
  shows "S ! i \<in> set (succeeding S R)"
proof -
  have "(S ! i, R ! i) \<in> set (zip S R)"
    using assms by (auto simp: set_zip)
  then have "(S ! i, None) \<in> set (filter (\<lambda>(state, err). err = None) (zip S R))"
    using assms by simp
  then have "fst (S ! i, None :: query_error option) \<in> set (succeeding S R)"
    unfolding succeeding_def set_map by (rule imageI)
  then show ?thesis by simp
qed

lemma succeeding_index:
  assumes "s \<in> set (succeeding S R)"
  shows "\<exists>i. i < length S \<and> i < length R \<and> R ! i = None \<and> s = S ! i"
proof -
  from assms obtain e where "(s, e) \<in> set (zip S R)" and "e = None"
    by (auto simp: succeeding_def)
  then show ?thesis by (auto simp: set_zip)
qed

lemma finished_all:
  assumes "distinct (finished pre)" and "set (finished pre) = {..<n}"
  shows "length (finished pre) = n"
proof -
  have "length (finished pre) = card (set (finished pre))"
    using assms(1) by (simp add: distinct_card)
  then show ?thesis using assms(2) by simp
qed

subsection \<open>One watcher succeeds\<close>

text \<open>
  C1. The claim is that with exactly one succeeding watcher the function returns its state
  with a nil error in every completion order. The code evaluated where the failing watcher
  finishes first: the error it recorded is still in \<open>waitErr\<close> when the winner is
  recorded, and the function returns the winning state together with that error.
\<close>

theorem loser_error_returned_with_winner:
  "map_option fst
     (WaitForAnyMachineState \<lparr>ID = ''m1'', Config = None\<rparr> [''started'', ''stopped''] (5 * Second)
        None [Some \<lparr>err_text = ''boom'', flaps_status = None\<rparr>, None]
        [Finish 0, Finish 1, Poll])
     = Some (''stopped'', Some \<lparr>err_text = ''boom'', flaps_status = None\<rparr>)"
  by (simp add: WaitForAnyMachineState_def race_init_def goroutine_def watcher_def
      coordinator_def)

subsection \<open>Every watcher fails\<close>

lemma all_fail_run:
  assumes fail: "\<forall>e\<in>set R. e \<noteq> None"
    and valid: "\<forall>i\<in>set (finished pre). i < length S \<and> i < length R"
    and count: "numCompleted r + length (finished pre) = length S"
    and nowin: "successfulState r = []"
  shows "race_run m S R (pre @ Poll # post) r
           = Some (([], waitErr (race_state m S R pre r)), status_line (race_state m S R pre r))"
  using valid count nowin
proof (induction pre arbitrary: r rule: finished.induct)
  case 1
  then show ?case by (simp add: coordinator_def)
next
  case (2 i es)
  let ?r = "goroutine m S R i r"
  from "2.prems"(1) have i: "i < length S" "i < length R" by simp_all
  then have "R ! i \<in> set R" by simp
  then have "R ! i \<noteq> None" using fail by blast
  then obtain e where e: "R ! i = Some e" by blast
  have g: "?r = watcher m (S ! i) (Some e) r" using i e by (simp add: goroutine_def)
  have v: "\<forall>i\<in>set (finished es). i < length S \<and> i < length R"
    using "2.prems"(1) by simp
  have c: "numCompleted ?r + length (finished es) = length S"
    using "2.prems"(2) by (simp add: g watcher_numCompleted)
  have n: "successfulState ?r = []"
    using "2.prems"(3) by (simp add: g watcher_failure)
  from "2.IH" [OF v c n] show ?case by simp
next
  case (3 es)
  show ?case
  proof (cases "numCompleted r = length S")
    case True
    then have "finished es = []" using "3.prems"(2) by simp
    then have "race_state m S R es r = r" by (rule race_state_no_finish)
    then show ?thesis using True "3.prems"(3) by (simp add: coordinator_def)
  next
    case False
    then have "coordinator (length S) r = None"
      using "3.prems"(3) by (simp add: coordinator_def)
    then show ?thesis using "3.IH" "3.prems" by simp
  qed
qed

lemma all_fail_waitErr:
  assumes fail: "\<forall>e\<in>set R. e \<noteq> None"
    and valid: "\<forall>i\<in>set (finished es). i < length S \<and> i < length R"
    and nowin: "successfulState r = []"
    and some: "finished es \<noteq> []"
  shows "waitErr (race_state m S R es r) = R ! last (finished es)"
  using valid nowin some
proof (induction es arbitrary: r rule: finished.induct)
  case 1
  then show ?case by simp
next
  case (2 i es)
  let ?r = "goroutine m S R i r"
  from "2.prems"(1) have i: "i < length S" "i < length R" by simp_all
  then have "R ! i \<in> set R" by simp
  then have "R ! i \<noteq> None" using fail by blast
  then obtain e where e: "R ! i = Some e" by blast
  have g: "?r = watcher m (S ! i) (Some e) r" using i e by (simp add: goroutine_def)
  have v: "\<forall>i\<in>set (finished es). i < length S \<and> i < length R"
    using "2.prems"(1) by simp
  have n: "successfulState ?r = []" and w: "waitErr ?r = R ! i"
    using "2.prems"(2) by (simp_all add: g watcher_failure e)
  show ?case
  proof (cases "finished es = []")
    case True
    then have "race_state m S R es ?r = ?r" by (rule race_state_no_finish)
    then show ?thesis using True w by simp
  next
    case False
    from "2.IH" [OF v n False] show ?thesis using False by simp
  qed
next
  case (3 es)
  then show ?case by simp
qed

text \<open>
  C2, as stated for every list of candidate states, fails at the empty list: no watcher
  exists, so every watcher fails, and the error returned is nil.
\<close>

theorem no_candidates_nil_error:
  "map_option fst
     (WaitForAnyMachineState \<lparr>ID = ''m1'', Config = None\<rparr> [] (5 * Second) None [] [Poll])
     = Some ('''', None)"
  by (simp add: WaitForAnyMachineState_def race_init_def coordinator_def)

text \<open>
  C2, amended. For every non-empty list of candidate states whose queries all fail, once
  every goroutine has run its critical section (each once, in any order, the coordinator
  polling at any time in between), the coordinator's next pass returns the empty state
  with the error of the goroutine that finished last, which is not nil.
\<close>

theorem all_fail_returns_last_error:
  assumes "possibleStates \<noteq> []"
    and "length results = length possibleStates"
    and "\<forall>e\<in>set results. e \<noteq> None"
    and "distinct (finished pre)"
    and "set (finished pre) = {..<length possibleStates}"
  shows "map_option fst
           (WaitForAnyMachineState mach possibleStates tmo sl results (pre @ Poll # post))
           = Some ('''', results ! last (finished pre))
         \<and> results ! last (finished pre) \<noteq> None"
proof -
  have len: "length (finished pre) = length possibleStates"
    using assms(4,5) by (rule finished_all)
  then have ne: "finished pre \<noteq> []" using assms(1) by auto
  have valid: "\<forall>i\<in>set (finished pre). i < length possibleStates \<and> i < length results"
    using assms(2,5) by simp
  have run: "race_run mach possibleStates results (pre @ Poll # post) (race_init sl)
      = Some (([], waitErr (race_state mach possibleStates results pre (race_init sl))),
          status_line (race_state mach possibleStates results pre (race_init sl)))"
    using assms(3) valid by (rule all_fail_run) (simp_all add: race_init_def len)
  have err: "waitErr (race_state mach possibleStates results pre (race_init sl))
      = results ! last (finished pre)"
    using assms(3) valid _ ne by (rule all_fail_waitErr) (simp add: race_init_def)
  have "last (finished pre) \<in> set (finished pre)" using ne by simp
  then have "last (finished pre) < length results" using valid by blast
  then have "results ! last (finished pre) \<in> set results" by simp
  then have "results ! last (finished pre) \<noteq> None" using assms(3) by blast
  then show ?thesis using run err by (simp add: WaitForAnyMachineState_def)
qed

theorem all_fail_returns_last_error_witness:
  "[''started'', ''stopped''] \<noteq> []
   \<and> length [Some \<lparr>err_text = ''boom'', flaps_status = None\<rparr>,
              Some \<lparr>err_text = ''gone'', flaps_status = Some 404\<rparr>]
       = length [''started'', ''stopped'']
   \<and> distinct (finished [Finish 1, Poll, Finish 0])
   \<and> set (finished [Finish 1, Poll, Finish 0]) = {..<length [''started'', ''stopped'']}
   \<and> map_option fst
        (WaitForAnyMachineState \<lparr>ID = ''m1'', Config = None\<rparr> [''started'', ''stopped'']
           (5 * Second) None
           [Some \<lparr>err_text = ''boom'', flaps_status = None\<rparr>,
            Some \<lparr>err_text = ''gone'', flaps_status = Some 404\<rparr>]
           ([Finish 1, Poll, Finish 0] @ Poll # []))
       = Some ('''', Some \<lparr>err_text = ''boom'', flaps_status = None\<rparr>)"
  (is "?h1 \<and> ?h2 \<and> ?h4 \<and> ?h5 \<and> ?c")
proof -
  have h1: ?h1 by simp
  have h2: ?h2 by simp
  have h3: "\<forall>e\<in>set [Some \<lparr>err_text = ''boom'', flaps_status = None\<rparr>,
                 Some \<lparr>err_text = ''gone'', flaps_status = Some 404\<rparr>]. e \<noteq> None"
    by simp
  have h4: ?h4 by simp
  have h5: ?h5 by (auto simp: lessThan_def)
  from all_fail_returns_last_error [OF h1 h2 h3 h4 h5,
      of "\<lparr>ID = ''m1'', Config = None\<rparr>" "5 * Second" None "[]"]
  have ?c by simp
  with h1 h2 h4 h5 show ?thesis by blast
qed

subsection \<open>Several watchers succeed\<close>

lemma race_run_returns_succeeding:
  assumes valid: "\<forall>i\<in>set (finished pre). i < length S \<and> i < length R"
    and count: "numCompleted r + length (finished pre) = length S"
    and won: "successfulState r \<noteq> [] \<longrightarrow> successfulState r \<in> set (succeeding S R)"
    and open_: "successfulState r = [] \<longrightarrow>
        (\<exists>i\<in>set (finished pre). R ! i = None) \<or> [] \<in> set (succeeding S R)"
  shows "\<exists>s e l. race_run m S R (pre @ Poll # post) r = Some ((s, e), l)
           \<and> s \<in> set (succeeding S R)"
  using assms
proof (induction pre arbitrary: r rule: finished.induct)
  case 1
  then show ?case by (auto simp: coordinator_def)
next
  case (2 i es)
  let ?r = "goroutine m S R i r"
  from "2.prems"(1) have i: "i < length S" "i < length R" by simp_all
  have g: "?r = watcher m (S ! i) (R ! i) r" using i by (simp add: goroutine_def)
  have v: "\<forall>i\<in>set (finished es). i < length S \<and> i < length R"
    using "2.prems"(1) by simp
  have c: "numCompleted ?r + length (finished es) = length S"
    using "2.prems"(2) by (simp add: g watcher_numCompleted)
  have w: "successfulState ?r \<noteq> [] \<longrightarrow> successfulState ?r \<in> set (succeeding S R)"
  proof (cases "successfulState r = []")
    case False
    then show ?thesis using "2.prems"(3) by (simp add: g watcher_keeps_winner)
  next
    case True
    show ?thesis
    proof (cases "R ! i")
      case None
      then show ?thesis using True i by (simp add: g watcher_sets_winner in_succeeding)
    next
      case (Some e)
      then show ?thesis using True by (simp add: g watcher_failure)
    qed
  qed
  have o: "successfulState ?r = [] \<longrightarrow>
        (\<exists>i\<in>set (finished es). R ! i = None) \<or> [] \<in> set (succeeding S R)"
  proof (cases "successfulState r = []")
    case False
    then show ?thesis by (simp add: g watcher_keeps_winner)
  next
    case True
    show ?thesis
    proof (cases "R ! i")
      case None
      have "S ! i \<in> set (succeeding S R)" using None i by (rule_tac in_succeeding)
      then show ?thesis using True None by (auto simp: g watcher_sets_winner)
    next
      case (Some e)
      then show ?thesis using True "2.prems"(4) by auto
    qed
  qed
  from "2.IH" [OF v c w o] show ?case by simp
next
  case (3 es)
  show ?case
  proof (cases "coordinator (length S) r")
    case None
    then show ?thesis using "3.IH" [OF _ _ "3.prems"(3)] "3.prems" by simp
  next
    case (Some res)
    then have res: "res = (successfulState r, waitErr r)"
      and cond: "successfulState r \<noteq> [] \<or> numCompleted r = length S"
      by (auto simp: coordinator_def split: if_splits)
    have "successfulState r \<in> set (succeeding S R)"
    proof (cases "successfulState r = []")
      case False
      then show ?thesis using "3.prems"(3) by simp
    next
      case True
      then have "finished es = []" using cond "3.prems"(2) by simp
      then show ?thesis using True "3.prems"(4) by simp
    qed
    then show ?thesis using Some res by simp
  qed
qed

lemma first_success_sets_winner:
  assumes "finished es = losers @ [i]"
    and "\<forall>j\<in>set losers. j < length R \<and> R ! j \<noteq> None"
    and "i < length S" and "i < length R" and "R ! i = None"
    and "successfulState r = []"
  shows "successfulState (race_state m S R es r) = S ! i"
  using assms(1,2,6)
proof (induction es arbitrary: r losers rule: finished.induct)
  case 1
  then show ?case by simp
next
  case (2 j es)
  show ?case
  proof (cases losers)
    case Nil
    then have j: "j = i" and f: "finished es = []" using "2.prems"(1) by simp_all
    have "race_state m S R es (goroutine m S R i r) = goroutine m S R i r"
      using f by (rule race_state_no_finish)
    then show ?thesis
      using assms(3,4,5) "2.prems"(3) by (simp add: j goroutine_def watcher_sets_winner)
  next
    case (Cons k losers')
    then have j: "j = k" and f: "finished es = losers' @ [i]" using "2.prems"(1) by simp_all
    have l: "\<forall>j\<in>set losers'. j < length R \<and> R ! j \<noteq> None"
      using "2.prems"(2) Cons by simp
    from "2.prems"(2) Cons j obtain e where e: "R ! j = Some e" by auto
    have "successfulState (goroutine m S R j r) = []"
      using "2.prems"(3) by (simp add: goroutine_def e watcher_failure)
    from "2.IH" [OF f l this] show ?thesis by simp
  qed
next
  case (3 es)
  then show ?case by simp
qed

text \<open>
  C3. In every execution where all goroutines finish and two or more queries succeed, the
  function returns, and the state it returns is that of one succeeding watcher. Along
  every execution the winner, once non-empty, is never changed by later events, and the
  first goroutine whose query succeeded (all goroutines before it having failed) sets the
  winner to its own state.
\<close>

theorem first_writer_wins:
  assumes "length results = length possibleStates"
    and "distinct (finished pre)"
    and "set (finished pre) = {..<length possibleStates}"
    and "2 \<le> length (succeeding possibleStates results)"
  shows "(\<exists>s e. map_option fst
              (WaitForAnyMachineState mach possibleStates tmo sl results (pre @ Poll # post))
              = Some (s, e)
            \<and> s \<in> set (succeeding possibleStates results))
         \<and> (successfulState (race_state mach possibleStates results es1 (race_init sl)) \<noteq> ''''
            \<longrightarrow> successfulState (race_state mach possibleStates results (es1 @ es2) (race_init sl))
                 = successfulState (race_state mach possibleStates results es1 (race_init sl)))
         \<and> (finished es = losers @ [i]
              \<and> (\<forall>j\<in>set losers. j < length results \<and> results ! j \<noteq> None)
              \<and> i < length possibleStates \<and> results ! i = None
            \<longrightarrow> successfulState (race_state mach possibleStates results es (race_init sl))
                 = possibleStates ! i)"
proof (intro conjI impI)
  have len: "length (finished pre) = length possibleStates"
    using assms(2,3) by (rule finished_all)
  have valid: "\<forall>i\<in>set (finished pre). i < length possibleStates \<and> i < length results"
    using assms(1,3) by simp
  from assms(4) obtain s where "s \<in> set (succeeding possibleStates results)"
    by (cases "succeeding possibleStates results") auto
  then obtain k where k: "k < length possibleStates" "results ! k = None"
    using succeeding_index by blast
  then have "k \<in> set (finished pre)" using assms(3) by simp
  then have pending: "\<exists>i\<in>set (finished pre). results ! i = None" using k by blast
  have "\<exists>s e l. race_run mach possibleStates results (pre @ Poll # post) (race_init sl)
          = Some ((s, e), l) \<and> s \<in> set (succeeding possibleStates results)"
    using valid by (rule race_run_returns_succeeding) (simp_all add: race_init_def len pending)
  then show "\<exists>s e. map_option fst
              (WaitForAnyMachineState mach possibleStates tmo sl results (pre @ Poll # post))
              = Some (s, e)
            \<and> s \<in> set (succeeding possibleStates results)"
    by (auto simp: WaitForAnyMachineState_def)
next
  assume "successfulState (race_state mach possibleStates results es1 (race_init sl)) \<noteq> ''''"
  then show "successfulState (race_state mach possibleStates results (es1 @ es2) (race_init sl))
      = successfulState (race_state mach possibleStates results es1 (race_init sl))"
    by (simp add: race_state_append race_state_keeps_winner)
next
  assume a: "finished es = losers @ [i]
      \<and> (\<forall>j\<in>set losers. j < length results \<and> results ! j \<noteq> None)
      \<and> i < length possibleStates \<and> results ! i = None"
  then have "i < length results" using assms(1) by simp
  with a show "successfulState (race_state mach possibleStates results es (race_init sl))
      = possibleStates ! i"
    by (intro first_success_sets_winner [of es losers i]) (simp_all add: race_init_def)
qed

theorem first_writer_wins_witness:
  "length [None, Some \<lparr>err_text = ''boom'', flaps_status = None\<rparr>, None]
     = length [''started'', ''stopped'', ''destroyed'']
   \<and> distinct (finished [Finish 2, Poll, Finish 1, Finish 0])
   \<and> set (finished [Finish 2, Poll, Finish 1, Finish 0])
       = {..<length [''started'', ''stopped'', ''destroyed'']}
   \<and> 2 \<le> length (succeeding [''started'', ''stopped'', ''destroyed'']
              [None, Some \<lparr>err_text = ''boom'', flaps_status = None\<rparr>, None])
   \<and> successfulState (race_state \<lparr>ID = ''m1'', Config = None\<rparr>
         [''started'', ''stopped'', ''destroyed'']
         [None, Some \<lparr>err_text = ''boom'', flaps_status = None\<rparr>, None]
         [Finish 2] (race_init None)) = ''destroyed''
   \<and> finished [Finish 1, Poll, Finish 2] = [1] @ [2]
   \<and> 2 < length [''started'', ''stopped'', ''destroyed'']
   \<and> [None, Some \<lparr>err_text = ''boom'', flaps_status = None\<rparr>, None] ! 2 = None
   \<and> map_option fst
          (WaitForAnyMachineState \<lparr>ID = ''m1'', Config = None\<rparr>
             [''started'', ''stopped'', ''destroyed''] (5 * Second) None
             [None, Some \<lparr>err_text = ''boom'', flaps_status = None\<rparr>, None]
             ([Finish 2, Poll, Finish 1, Finish 0] @ Poll # []))
       = Some (''destroyed'', None)
   \<and> ''destroyed'' \<in> set (succeeding [''started'', ''stopped'', ''destroyed'']
              [None, Some \<lparr>err_text = ''boom'', flaps_status = None\<rparr>, None])
   \<and> successfulState (race_state \<lparr>ID = ''m1'', Config = None\<rparr>
         [''started'', ''stopped'', ''destroyed'']
         [None, Some \<lparr>err_text = ''boom'', flaps_status = None\<rparr>, None]
         ([Finish 2] @ [Finish 0]) (race_init None))
       = ''destroyed''
   \<and> successfulState (race_state \<lparr>ID = ''m1'', Config = None\<rparr>
         [''started'', ''stopped'', ''destroyed'']
         [None, Some \<lparr>err_text = ''boom'', flaps_status = None\<rparr>, None]
         [Finish 1, Poll, Finish 2] (race_init None))
       = ''destroyed''"
  (is "?h1 \<and> ?h2 \<and> ?h3 \<and> ?h4 \<and> ?p1 \<and> ?p2 \<and> ?p4 \<and> ?p5 \<and> ?c0 \<and> ?c1 \<and> ?c2 \<and> ?c3")
proof -
  let ?S = "[''started'', ''stopped'', ''destroyed'']"
  let ?R = "[None, Some \<lparr>err_text = ''boom'', flaps_status = None\<rparr>, None]"
  have h1: ?h1 by simp
  have h2: ?h2 by simp
  have h3: ?h3 by (auto simp: lessThan_def)
  have h4: ?h4 by (simp add: succeeding_def)
  have p1: ?p1 by (simp add: race_init_def goroutine_def watcher_def)
  have p2: ?p2 by simp
  have p3: "\<forall>j\<in>set [1]. j < length ?R \<and> ?R ! j \<noteq> None" by simp
  have p4: ?p4 by simp
  have p5: ?p5 by simp
  note inst = first_writer_wins [OF h1 h2 h3 h4,
      of "\<lparr>ID = ''m1'', Config = None\<rparr>" "5 * Second" None "[]"
         "[Finish 2]" "[Finish 0]" "[Finish 1, Poll, Finish 2]" "[1]" 2]
  from inst obtain s e where
    run: "map_option fst
          (WaitForAnyMachineState \<lparr>ID = ''m1'', Config = None\<rparr> ?S (5 * Second) None ?R
             ([Finish 2, Poll, Finish 1, Finish 0] @ Poll # []))
       = Some (s, e)"
    and mem: "s \<in> set (succeeding ?S ?R)"
    by blast
  have ev: "map_option fst
          (WaitForAnyMachineState \<lparr>ID = ''m1'', Config = None\<rparr> ?S (5 * Second) None ?R
             ([Finish 2, Poll, Finish 1, Finish 0] @ Poll # []))
       = Some (''destroyed'', None)"
    by (simp add: WaitForAnyMachineState_def race_init_def goroutine_def watcher_def
        coordinator_def)
  from run [unfolded ev] have "s = ''destroyed''" by simp
  with mem have c1: ?c1 by simp
  from inst p1 have c2: ?c2 by simp
  from inst p2 p3 p4 p5 have c3: ?c3 by simp
  from h1 h2 h3 h4 p1 p2 p4 p5 ev c1 c2 c3 show ?thesis by blast
qed

subsection \<open>The status line and the empty list\<close>

lemma same_result_without_status_line:
  assumes "waitErr r = waitErr r'" and "numCompleted r = numCompleted r'"
    and "successfulState r = successfulState r'"
  shows "map_option fst (race_run m S R es r) = map_option fst (race_run m S R es r')"
  using assms
proof (induction es arbitrary: r r' rule: finished.induct)
  case 1
  then show ?case by simp
next
  case (2 i es)
  have "waitErr (goroutine m S R i r) = waitErr (goroutine m S R i r')"
    and "numCompleted (goroutine m S R i r) = numCompleted (goroutine m S R i r')"
    and "successfulState (goroutine m S R i r) = successfulState (goroutine m S R i r')"
    using "2.prems" by (simp_all add: goroutine_def watcher_def Let_def split: option.splits)
  from "2.IH" [OF this] show ?case by simp
next
  case (3 es)
  have "coordinator (length S) r = coordinator (length S) r'"
    using "3.prems" by (simp add: coordinator_def)
  then show ?case using "3.IH" [OF "3.prems"] by (simp split: option.splits)
qed

text \<open>
  C8. For every input, every list of query results and every sequence of events, the pair
  returned with a status line is the pair returned with a nil status line.
\<close>

theorem status_line_noninterference:
  "map_option fst (WaitForAnyMachineState mach possibleStates tmo sl results sched)
     = map_option fst (WaitForAnyMachineState mach possibleStates tmo None results sched)"
  unfolding WaitForAnyMachineState_def
  by (rule same_result_without_status_line) (simp_all add: race_init_def)

lemma no_candidates_run:
  "race_run m [] R (pre @ Poll # post) (race_init sl) = Some (([], None), sl)"
  by (induction pre rule: finished.induct)
     (simp_all add: coordinator_def race_init_def goroutine_def)

text \<open>
  C9. With no candidate state there is no goroutine and no query: whatever the events
  before it, a pass of the coordinator returns the empty state with a nil error, in
  particular the first one, and the status line is as it was given.
\<close>

theorem no_candidates_returns_at_once:
  "WaitForAnyMachineState mach [] tmo sl results (pre @ Poll # post) = Some (('''', None), sl)"
  unfolding WaitForAnyMachineState_def by (rule no_candidates_run)

end
